theory Spec2Isabelle
  imports Complex_Main
begin

section \<open>Python values\<close>

text \<open>
  The translator of \<^verbatim>\<open>pydantic_spark/base.py\<close> works on plain Python data: the schema
  that pydantic produces is a tree of dicts, lists, strings, numbers, booleans and None,
  and the Spark schema it returns is a tree of the same kind. A dict keeps insertion
  order, so it is an association list; \<^verbatim>\<open>None\<close> is \<open>JNull\<close>. A Python dict holds each
  key once; the association lists of the theorems below are arbitrary, so they hold in
  particular for those with distinct keys. A float is carried as the rational it stands
  for: the code only tests it for truth and copies it.
\<close>

datatype json =
    JNull
  | JBool bool
  | JInt int
  | JFloat rat
  | JStr string
  | JList "json list"
  | JDict "(string \<times> json) list"

type_synonym dict = "(string \<times> json) list"

text \<open>
  The exceptions the code can raise. The two \<^verbatim>\<open>RuntimeError\<close>s and the
  \<^verbatim>\<open>NotImplementedError\<close> carry the value that the message of the source formats:
  the definition id, the enum type and the type token. \<open>OutOfFuel\<close> is not a Python
  outcome: it says that the model's budget of definition lookups was used up.
\<close>

datatype error =
    RuntimeError_Definition string
  | RuntimeError_Enum json
  | NotImplementedError json
  | AttributeError
  | TypeError
  | KeyError
  | IndexError
  | UnboundLocalError
  | OutOfFuel

text \<open>Truth value of a Python object, as \<^verbatim>\<open>if x\<close> and \<^verbatim>\<open>not x\<close> test it.\<close>

fun truthy :: "json \<Rightarrow> bool" where
  "truthy JNull = False"
| "truthy (JBool b) = b"
| "truthy (JInt i) = (i \<noteq> 0)"
| "truthy (JFloat q) = (q \<noteq> 0)"
| "truthy (JStr s) = (s \<noteq> [])"
| "truthy (JList xs) = (xs \<noteq> [])"
| "truthy (JDict kvs) = (kvs \<noteq> [])"

text \<open>\<^verbatim>\<open>k in d\<close>, \<^verbatim>\<open>d.get(k)\<close>, \<^verbatim>\<open>d.get(k, default)\<close> and \<^verbatim>\<open>d[k] = v\<close> on a dict.\<close>

definition has_key :: "dict \<Rightarrow> string \<Rightarrow> bool" where
  "has_key d k = (map_of d k \<noteq> None)"

definition dict_get :: "dict \<Rightarrow> string \<Rightarrow> json" where
  "dict_get d k = (case map_of d k of None \<Rightarrow> JNull | Some v \<Rightarrow> v)"

definition dict_get_default :: "dict \<Rightarrow> string \<Rightarrow> json \<Rightarrow> json" where
  "dict_get_default d k dflt = (case map_of d k of None \<Rightarrow> dflt | Some v \<Rightarrow> v)"

fun dict_set :: "dict \<Rightarrow> string \<Rightarrow> json \<Rightarrow> dict" where
  "dict_set [] k v = [(k, v)]"
| "dict_set ((k', v') # d) k v = (if k' = k then (k, v) # d else (k', v') # dict_set d k v)"

text \<open>\<^verbatim>\<open>s.replace(old, new)\<close>: every occurrence of \<open>old\<close>, from the left, not overlapping.
  The counter is the number of characters of a match still to be skipped.\<close>

fun starts_with :: "string \<Rightarrow> string \<Rightarrow> bool" where
  "starts_with [] s = True"
| "starts_with (p # ps) [] = False"
| "starts_with (p # ps) (c # cs) = (p = c \<and> starts_with ps cs)"

fun replace_from :: "string \<Rightarrow> string \<Rightarrow> nat \<Rightarrow> string \<Rightarrow> string" where
  "replace_from old new k [] = []"
| "replace_from old new (Suc k) (c # cs) = replace_from old new k cs"
| "replace_from old new 0 (c # cs) =
     (if starts_with old (c # cs) then new @ replace_from old new (length old - 1) cs
      else c # replace_from old new 0 cs)"

definition replace :: "string \<Rightarrow> string \<Rightarrow> string \<Rightarrow> string" where
  "replace old new s =
     (if old = [] then new @ concat (map (\<lambda>c. c # new) s) else replace_from old new 0 s)"

text \<open>\<^verbatim>\<open>sub in s\<close> on two strings.\<close>

fun is_substring :: "string \<Rightarrow> string \<Rightarrow> bool" where
  "is_substring p [] = (p = [])"
| "is_substring p (c # cs) = (starts_with p (c # cs) \<or> is_substring p cs)"

text \<open>\<^verbatim>\<open>key in c\<close> for a string \<open>key\<close>: membership in a list, substring of a string,
  key of a dict, and a TypeError on a value that is not a container.\<close>

fun py_in :: "string \<Rightarrow> json \<Rightarrow> error + bool" where
  "py_in key (JList xs) = Inr (JStr key \<in> set xs)"
| "py_in key (JStr s) = Inr (is_substring key s)"
| "py_in key (JDict kvs) = Inr (has_key kvs key)"
| "py_in key _ = Inl TypeError"

text \<open>\<^verbatim>\<open>x[0]\<close>: the keys of a schema dict are strings, so \<open>0\<close> is never one.\<close>

fun py_index0 :: "json \<Rightarrow> error + json" where
  "py_index0 (JList []) = Inl IndexError"
| "py_index0 (JList (x # xs)) = Inr x"
| "py_index0 (JStr []) = Inl IndexError"
| "py_index0 (JStr (c # cs)) = Inr (JStr [c])"
| "py_index0 (JDict kvs) = Inl KeyError"
| "py_index0 _ = Inl TypeError"

text \<open>\<^verbatim>\<open>for x in c\<close>: the elements of a list, the characters of a string, the keys of a dict.\<close>

fun py_iter :: "json \<Rightarrow> error + json list" where
  "py_iter (JList xs) = Inr xs"
| "py_iter (JStr s) = Inr (map (\<lambda>c. JStr [c]) s)"
| "py_iter (JDict kvs) = Inr (map (\<lambda>kv. JStr (fst kv)) kvs)"
| "py_iter _ = Inl TypeError"

text \<open>\<^verbatim>\<open>x[k]\<close> for a string key \<open>k\<close>.\<close>

fun py_getitem :: "json \<Rightarrow> string \<Rightarrow> error + json" where
  "py_getitem (JDict kvs) k = (case map_of kvs k of None \<Rightarrow> Inl KeyError | Some v \<Rightarrow> Inr v)"
| "py_getitem _ k = Inl TypeError"

section \<open>The resolution cache\<close>

text \<open>
  \<^verbatim>\<open>classes_seen\<close> is a dict from class name to the string \<^verbatim>\<open>"in progress"\<close> or to a
  resolved type. It is never iterated, so a map is enough. \<^verbatim>\<open>classes_seen.get(name)\<close>
  is \<open>cache_get\<close>.
\<close>

type_synonym cache = "string \<rightharpoonup> json"

definition cache_get :: "cache \<Rightarrow> string \<Rightarrow> json" where
  "cache_get cs k = (case cs k of None \<Rightarrow> JNull | Some v \<Rightarrow> v)"

definition in_progress :: json where
  "in_progress = JStr ''in progress''"

text \<open>The literal of lines 73 to 80, the type given to a reference that closes a cycle.\<close>

definition cycle_placeholder :: json where
  "cycle_placeholder =
     JDict [(''type'', JDict [(''type'', JStr ''map''), (''keyType'', JStr ''string''),
                              (''valueType'', JStr ''string''), (''valueContainsNull'', JBool True)])]"

section \<open>get\_definition\<close>

definition get_definition :: "json \<Rightarrow> json \<Rightarrow> error + json" where
  "get_definition ref schema =
     (case ref of
        JStr rs \<Rightarrow>
          (let id = replace ''#/definitions/'' '''' rs in
           case schema of
             JDict skvs \<Rightarrow>
               (case dict_get_default skvs ''definitions'' (JDict []) of
                  JDict defs \<Rightarrow>
                    (let d = dict_get defs id in
                     if d = JNull then Inl (RuntimeError_Definition id) else Inr d)
                | _ \<Rightarrow> Inl AttributeError)
           | _ \<Rightarrow> Inl AttributeError)
      | _ \<Rightarrow> Inl AttributeError)"

section \<open>The union of structs\<close>

text \<open>
  The body of \<^verbatim>\<open>case "struct"\<close> (lines 149 to 171) without its calls of
  \<^verbatim>\<open>get_type\<close>. \<open>subtype_fields\<close> is the \<^verbatim>\<open>defaultdict\<close>, in insertion order; its keys
  are the values of \<^verbatim>\<open>field["name"]\<close>, compared as values. The assignments to
  \<^verbatim>\<open>first_field\<close> build a new field here; in Python they also change the object that the
  cache holds. This is the only place where the source changes a type after it has
  returned it, and lemma \<open>union_takes_first_alternative\<close> below shows that it is never
  reached, so values without sharing are enough everywhere else.
\<close>

fun hashable :: "json \<Rightarrow> bool" where
  "hashable (JList xs) = False"
| "hashable (JDict kvs) = False"
| "hashable _ = True"

fun dd_append :: "(json \<times> json list) list \<Rightarrow> json \<Rightarrow> json \<Rightarrow> (json \<times> json list) list" where
  "dd_append [] name field = [(name, [field])]"
| "dd_append ((k, fs) # rest) name field =
     (if k = name then (k, fs @ [field]) # rest else (k, fs) # dd_append rest name field)"

fun coalesce :: "json list \<Rightarrow> (json \<times> json list) list \<Rightarrow> error + (json \<times> json list) list" where
  "coalesce [] subtype_fields = Inr subtype_fields"
| "coalesce (field # rest) subtype_fields =
     (case py_getitem field ''name'' of
        Inl e \<Rightarrow> Inl e
      | Inr name \<Rightarrow>
          if hashable name then coalesce rest (dd_append subtype_fields name field)
          else Inl TypeError)"

fun all_nullable :: "json list \<Rightarrow> error + bool" where
  "all_nullable [] = Inr True"
| "all_nullable (field # rest) =
     (case py_getitem field ''nullable'' of
        Inl e \<Rightarrow> Inl e
      | Inr b \<Rightarrow> if truthy b then all_nullable rest else Inr False)"

fun merge_fields :: "nat \<Rightarrow> json \<Rightarrow> (json \<times> json list) list \<Rightarrow> error + json list" where
  "merge_fields len_anyof p_class [] = Inr []"
| "merge_fields len_anyof p_class ((name, subfields) # rest) =
     (case subfields of
        [] \<Rightarrow> Inl IndexError
      | first_field # _ \<Rightarrow>
          (case (if length subfields = len_anyof then all_nullable subfields else Inr True) of
             Inl e \<Rightarrow> Inl e
           | Inr nullable \<Rightarrow>
               (case first_field of
                  JDict ff \<Rightarrow>
                    (let ff1 = dict_set ff ''nullable'' (JBool nullable) in
                     case map_of ff1 ''metadata'' of
                       None \<Rightarrow> Inl KeyError
                     | Some (JDict md) \<Rightarrow>
                         (let ff2 = dict_set ff1 ''metadata'' (JDict (dict_set md ''parentClass'' p_class)) in
                          case merge_fields len_anyof p_class rest of
                            Inl e \<Rightarrow> Inl e
                          | Inr unique \<Rightarrow> Inr (JDict ff2 # unique))
                     | Some _ \<Rightarrow> Inl TypeError)
                | _ \<Rightarrow> Inl TypeError)))"

section \<open>get\_type, get\_type\_of\_definition and get\_fields\<close>

text \<open>
  The three nested functions of \<^verbatim>\<open>_spark_schema\<close> call each other; \<^verbatim>\<open>schema\<close> and
  \<^verbatim>\<open>classes_seen\<close> are variables of the enclosing call, so the schema is a parameter
  and the cache is passed in and returned. An exception leaves through every caller (the
  source has no \<^verbatim>\<open>try\<close>), so the cache of a failed call is not returned.

  The only recursion that does not go to a part of its argument is the step from a
  \<^verbatim>\<open>$ref\<close> to the definition it names. The first argument \<open>n\<close> bounds how many such steps
  may be nested; it goes down by one at line 66 and nowhere else. Theorems
  \<open>translation_returns\<close> and \<open>translation_result_stable\<close> below show that a budget above
  the number of definitions is never used up and that the result does not depend on it.
  The recursion limit of the interpreter is not part of the model.

  \<open>get_fields_loop\<close> is the \<^verbatim>\<open>for\<close> of line 137 and \<open>get_fields_step\<close> its body, which
  makes one field: \<open>property_type\<close> is the \<^verbatim>\<open>if anyof ... else\<close> of lines 141 to 178, which
  gives \<^verbatim>\<open>spark_type, metadata\<close>, and the rest is lines 180 to 186. \<open>union_loop\<close> is the
  \<^verbatim>\<open>for\<close> of line 150 and returns the \<^verbatim>\<open>defaultdict\<close> and the \<^verbatim>\<open>spark_type, metadata\<close> of
  its last round.
\<close>

function
  get_type :: "nat \<Rightarrow> json \<Rightarrow> json \<Rightarrow> cache \<Rightarrow> error + ((json \<times> dict) \<times> cache)" and
  get_type_of_definition :: "nat \<Rightarrow> json \<Rightarrow> json \<Rightarrow> cache \<Rightarrow> error + (json \<times> cache)" and
  get_fields :: "nat \<Rightarrow> json \<Rightarrow> json \<Rightarrow> cache \<Rightarrow> error + (json list \<times> cache)" and
  get_fields_loop :: "nat \<Rightarrow> json \<Rightarrow> dict \<Rightarrow> json \<Rightarrow> (string \<times> json) list \<Rightarrow> cache
                      \<Rightarrow> error + (json list \<times> cache)" and
  get_fields_step :: "nat \<Rightarrow> json \<Rightarrow> dict \<Rightarrow> json \<Rightarrow> string \<Rightarrow> json \<Rightarrow> cache
                      \<Rightarrow> error + (json \<times> cache)" and
  property_type :: "nat \<Rightarrow> json \<Rightarrow> json \<Rightarrow> json \<Rightarrow> cache \<Rightarrow> error + ((json \<times> dict) \<times> cache)" and
  union_loop :: "nat \<Rightarrow> json \<Rightarrow> json list \<Rightarrow> (json \<times> json list) list \<Rightarrow> (json \<times> dict) option \<Rightarrow> cache
                 \<Rightarrow> error + (((json \<times> json list) list \<times> (json \<times> dict) option) \<times> cache)"
where
  "get_type n schema value cs =
     (case value of
        JDict kvs \<Rightarrow>
          (let t0 = dict_get kvs ''type'';
               t = (if \<not> truthy t0
                    then (if truthy (dict_get kvs ''anyOf'') then JStr ''list'' else JNull)
                    else t0);
               f = dict_get kvs ''format'';
               r = dict_get kvs ''$ref'';
               a = dict_get kvs ''additionalProperties'';
               metadata = (if has_key kvs ''default''
                           then dict_set [] ''default'' (dict_get kvs ''default'') else [])
           in
           if r \<noteq> JNull then
             (case r of
                JStr rs \<Rightarrow>
                  (let class_name = replace ''#/definitions/'' [] rs;
                       seen = cache_get cs class_name
                   in
                   if seen = JNull then
                     (case n of
                        0 \<Rightarrow> Inl OutOfFuel
                      | Suc m \<Rightarrow>
                          (case get_type_of_definition m schema r (cs(class_name \<mapsto> in_progress)) of
                             Inl e \<Rightarrow> Inl e
                           | Inr (spark_type, cs') \<Rightarrow>
                               Inr ((spark_type, metadata), cs'(class_name \<mapsto> spark_type))))
                   else if seen = in_progress then
                     Inr ((cycle_placeholder, metadata), cs(class_name \<mapsto> cycle_placeholder))
                   else Inr ((seen, metadata), cs))
              | _ \<Rightarrow> Inl AttributeError)
           else if t = JStr ''array'' then
             (case get_type n schema (dict_get kvs ''items'') cs of
                Inl e \<Rightarrow> Inl e
              | Inr ((tn, metadata'), cs') \<Rightarrow>
                  Inr ((JDict [(''type'', JStr ''array''), (''elementType'', tn),
                               (''containsNull'', JBool True)], metadata'), cs'))
           else if t = JStr ''string'' \<and> f = JStr ''date-time'' then
             Inr ((JStr ''timestamp'', metadata), cs)
           else if t = JStr ''string'' \<and> f = JStr ''date'' then
             Inr ((JStr ''date'', metadata), cs)
           else if t = JStr ''string'' \<and> f = JStr ''uuid'' then
             Inr ((JStr ''string'', dict_set metadata ''logicalType'' (JStr ''uuid'')), cs)
           else if t = JStr ''string'' then Inr ((JStr ''string'', metadata), cs)
           else if t = JStr ''number'' then Inr ((JStr ''double'', metadata), cs)
           else if t = JStr ''integer'' then Inr ((JStr ''long'', metadata), cs)
           else if t = JStr ''boolean'' then Inr ((JStr ''boolean'', metadata), cs)
           else if t = JStr ''list'' then Inr ((JStr ''string'', metadata), cs)
           else if t = JStr ''object'' then
             (if a = JNull then
                Inr ((JDict [(''keyType'', JStr ''string''), (''type'', JStr ''map''),
                             (''valueContainsNull'', JBool True), (''valueType'', JStr ''string'')],
                      metadata), cs)
              else
                (case get_type n schema a cs of
                   Inl e \<Rightarrow> Inl e
                 | Inr ((value_type, m), cs') \<Rightarrow>
                     Inr ((JDict [(''keyType'', JStr ''string''), (''type'', JStr ''map''),
                                  (''valueContainsNull'', JBool True), (''valueType'', value_type)],
                           metadata), cs')))
           else Inl (NotImplementedError t))
      | _ \<Rightarrow> Inl AttributeError)"
| "get_type_of_definition n schema ref cs =
     (case get_definition ref schema of
        Inl e \<Rightarrow> Inl e
      | Inr d \<Rightarrow>
          (case py_in ''enum'' d of
             Inl e \<Rightarrow> Inl e
           | Inr True \<Rightarrow>
               (case d of
                  JDict dkvs \<Rightarrow>
                    (let enum_type = dict_get dkvs ''type'' in
                     if enum_type = JStr ''string'' then Inr (JStr ''string'', cs)
                     else if enum_type = JStr ''number'' then Inr (JStr ''double'', cs)
                     else if enum_type = JStr ''integer'' then Inr (JStr ''long'', cs)
                     else Inl (RuntimeError_Enum enum_type))
                | _ \<Rightarrow> Inl AttributeError)
           | Inr False \<Rightarrow>
               (case get_fields n schema d cs of
                  Inl e \<Rightarrow> Inl e
                | Inr (fields, cs') \<Rightarrow>
                    Inr (JDict [(''type'', JStr ''struct''), (''fields'', JList fields)], cs'))))"
| "get_fields n schema s cs =
     (case s of
        JDict skvs \<Rightarrow>
          (let required = dict_get_default skvs ''required'' (JList []) in
           case dict_get_default skvs ''properties'' (JDict []) of
             JDict props \<Rightarrow> get_fields_loop n schema skvs required props cs
           | _ \<Rightarrow> Inl AttributeError)
      | _ \<Rightarrow> Inl AttributeError)"
| "get_fields_loop n schema skvs required [] cs = Inr ([], cs)"
| "get_fields_loop n schema skvs required ((key, value) # rest) cs =
     (case get_fields_step n schema skvs required key value cs of
        Inl e \<Rightarrow> Inl e
      | Inr (struct_field, cs') \<Rightarrow>
          (case get_fields_loop n schema skvs required rest cs' of
             Inl e \<Rightarrow> Inl e
           | Inr (fields, cs'') \<Rightarrow> Inr (struct_field # fields, cs'')))"
| "get_fields_step n schema skvs required key value cs =
     (let p_class = dict_get skvs ''title'' in
      case property_type n schema p_class value cs of
        Inl e \<Rightarrow> Inl e
      | Inr ((spark_type, metadata0), cs') \<Rightarrow>
          (let metadata = dict_set metadata0 ''parentClass'' p_class in
           case (if has_key metadata ''default'' then Inr False
                 else (case py_in key required of Inl e \<Rightarrow> Inl e | Inr b \<Rightarrow> Inr (\<not> b))) of
             Inl e \<Rightarrow> Inl e
           | Inr nullable \<Rightarrow>
               Inr (JDict [(''name'', JStr key), (''nullable'', JBool nullable),
                           (''metadata'', JDict metadata), (''type'', spark_type)], cs')))"
| "property_type n schema p_class value cs =
     (case value of
        JDict vkvs \<Rightarrow>
          (let anyof = dict_get vkvs ''anyOf'' in
           if truthy anyof then
             (case py_index0 anyof of
                Inl e \<Rightarrow> Inl e
              | Inr first_value \<Rightarrow>
                  (case get_type n schema first_value cs of
                     Inl e \<Rightarrow> Inl e
                   | Inr ((first_subtype, first_metadata), cs1) \<Rightarrow>
                       if first_subtype = JStr ''struct'' then
                         (case py_iter anyof of
                            Inl e \<Rightarrow> Inl e
                          | Inr vs \<Rightarrow>
                              (case union_loop n schema vs [] None cs1 of
                                 Inl e \<Rightarrow> Inl e
                               | Inr ((subtype_fields, last_round), cs2) \<Rightarrow>
                                   (case merge_fields (length vs) p_class subtype_fields of
                                      Inl e \<Rightarrow> Inl e
                                    | Inr unique \<Rightarrow>
                                        (case last_round of
                                           None \<Rightarrow> Inl UnboundLocalError
                                         | Some (spark_type, metadata) \<Rightarrow>
                                             (case spark_type of
                                                JDict st \<Rightarrow>
                                                  Inr ((JDict (dict_set st ''fields'' (JList unique)),
                                                        metadata), cs2)
                                              | _ \<Rightarrow> Inl TypeError)))))
                       else Inr ((first_subtype, first_metadata), cs1)))
           else get_type n schema value cs)
      | _ \<Rightarrow> Inl AttributeError)"
| "union_loop n schema [] subtype_fields last_round cs = Inr ((subtype_fields, last_round), cs)"
| "union_loop n schema (v # rest) subtype_fields last_round cs =
     (case get_type n schema v cs of
        Inl e \<Rightarrow> Inl e
      | Inr ((spark_type, metadata), cs') \<Rightarrow>
          (case spark_type of
             JDict st \<Rightarrow>
               (case py_iter (dict_get st ''fields'') of
                  Inl e \<Rightarrow> Inl e
                | Inr spark_type_fields \<Rightarrow>
                    (case coalesce spark_type_fields subtype_fields of
                       Inl e \<Rightarrow> Inl e
                     | Inr subtype_fields' \<Rightarrow>
                         union_loop n schema rest subtype_fields' (Some (spark_type, metadata)) cs'))
           | _ \<Rightarrow> Inl AttributeError))"
  by pat_completeness auto

section \<open>\_spark\_schema\<close>

text \<open>
  The body of \<^verbatim>\<open>_spark_schema\<close>: a fresh \<^verbatim>\<open>classes_seen\<close>, the fields of the schema
  itself, and the struct around them.
\<close>

definition spark_schema :: "nat \<Rightarrow> json \<Rightarrow> error + json" where
  "spark_schema n schema =
     (case get_fields n schema schema Map.empty of
        Inl e \<Rightarrow> Inl e
      | Inr (fields, cs) \<Rightarrow> Inr (JDict [(''fields'', JList fields), (''type'', JStr ''struct'')]))"

section \<open>Example schemas\<close>

text \<open>A model without properties: \<^verbatim>\<open>{"title": "M"}\<close>.\<close>

definition bare_schema :: dict where
  "bare_schema = [(''title'', JStr ''M'')]"

text \<open>Field descriptors: a time of day, a uuid with a default, and a type without a rule.\<close>

definition time_descriptor :: dict where
  "time_descriptor = [(''type'', JStr ''string''), (''format'', JStr ''time'')]"

definition uuid_descriptor :: dict where
  "uuid_descriptor = [(''type'', JStr ''string''), (''format'', JStr ''uuid''), (''default'', JNull)]"

definition decimal_descriptor :: dict where
  "decimal_descriptor = [(''type'', JStr ''decimal'')]"



text \<open>A property with a default whose name is not required.\<close>

definition default_schema :: dict where
  "default_schema =
     [(''title'', JStr ''M''),
      (''properties'', JDict [(''x'', JDict [(''type'', JStr ''integer''), (''default'', JInt 5)])])]"

definition default_fields :: "json list" where
  "default_fields =
     [JDict [(''name'', JStr ''x''), (''nullable'', JBool False),
             (''metadata'', JDict [(''default'', JInt 5), (''parentClass'', JStr ''M'')]),
             (''type'', JStr ''long'')]]"

text \<open>A union of an integer and a string, with a default.\<close>

definition union_default_schema :: json where
  "union_default_schema =
     JDict [(''title'', JStr ''M''),
            (''properties'',
             JDict [(''u'', JDict [(''anyOf'', JList [JDict [(''type'', JStr ''integer'')],
                                                      JDict [(''type'', JStr ''string'')]]),
                                   (''default'', JInt 5)])])]"

text \<open>A union of two models: \<open>A\<close> with a required integer \<open>a\<close>, and \<open>B\<close> with an optional
  integer \<open>a\<close> and a required string \<open>b\<close>.\<close>

definition union_schema :: json where
  "union_schema =
     JDict [(''title'', JStr ''M''),
            (''properties'',
             JDict [(''u'', JDict [(''anyOf'', JList [JDict [(''$ref'', JStr ''#/definitions/A'')],
                                                      JDict [(''$ref'', JStr ''#/definitions/B'')]])])]),
            (''definitions'',
             JDict [(''A'', JDict [(''title'', JStr ''A''),
                                   (''properties'', JDict [(''a'', JDict [(''type'', JStr ''integer'')])]),
                                   (''required'', JList [JStr ''a''])]),
                    (''B'', JDict [(''title'', JStr ''B''),
                                   (''properties'', JDict [(''a'', JDict [(''type'', JStr ''integer'')]),
                                                           (''b'', JDict [(''type'', JStr ''string'')])]),
                                   (''required'', JList [JStr ''b''])])])]"

text \<open>The self-referential \<open>Node\<close> of the specification, referred to once and twice.\<close>

definition node_definitions :: json where
  "node_definitions =
     JDict [(''Node'', JDict [(''title'', JStr ''Node''),
                              (''properties'',
                               JDict [(''next'', JDict [(''$ref'', JStr ''#/definitions/Node'')])])])]"

definition node_schema :: json where
  "node_schema =
     JDict [(''title'', JStr ''M''),
            (''properties'', JDict [(''node'', JDict [(''$ref'', JStr ''#/definitions/Node'')])]),
            (''definitions'', node_definitions)]"

definition two_refs_schema :: json where
  "two_refs_schema =
     JDict [(''title'', JStr ''M''),
            (''properties'', JDict [(''a'', JDict [(''$ref'', JStr ''#/definitions/Node'')]),
                                    (''b'', JDict [(''$ref'', JStr ''#/definitions/Node'')])]),
            (''definitions'', node_definitions)]"

text \<open>What the code returns for \<open>Node\<close>: a struct whose field \<open>next\<close> has the placeholder.\<close>

definition node_struct :: json where
  "node_struct =
     JDict [(''type'', JStr ''struct''),
            (''fields'', JList [JDict [(''name'', JStr ''next''), (''nullable'', JBool True),
                                       (''metadata'', JDict [(''parentClass'', JStr ''Node'')]),
                                       (''type'', cycle_placeholder)]])]"

text \<open>The descriptor \<^verbatim>\<open>{"$ref": "#/definitions/Node"}\<close>.\<close>

definition node_ref :: dict where
  "node_ref = [(''$ref'', JStr ''#/definitions/Node'')]"

section \<open>Invariants of the cache\<close>

text \<open>
  \<open>defined_in\<close> says that the definitions table of the schema has an entry for a name,
  as \<^verbatim>\<open>get_definition\<close> tests it. A cache is in order when every name it holds is defined
  and no entry is the string \<^verbatim>\<open>"struct"\<close>; \<open>seen_mono\<close> says that a cache holds every name
  that an earlier one held.
\<close>

definition defined_in :: "json \<Rightarrow> string \<Rightarrow> bool" where
  "defined_in schema name =
     (case schema of
        JDict skvs \<Rightarrow>
          (case dict_get_default skvs ''definitions'' (JDict []) of
             JDict defs \<Rightarrow> dict_get defs name \<noteq> JNull
           | _ \<Rightarrow> False)
      | _ \<Rightarrow> False)"

definition cache_ok :: "json \<Rightarrow> cache \<Rightarrow> bool" where
  "cache_ok schema cs =
     (\<forall>k. cache_get cs k \<noteq> JNull \<longrightarrow> defined_in schema k \<and> cache_get cs k \<noteq> JStr ''struct'')"

definition seen_mono :: "cache \<Rightarrow> cache \<Rightarrow> bool" where
  "seen_mono cs cs' = (\<forall>k. cache_get cs k \<noteq> JNull \<longrightarrow> cache_get cs' k \<noteq> JNull)"


section \<open>The budget that is enough\<close>

text \<open>
  The names of the definitions table, and how many of them a cache does not hold yet.
  Each step from a reference to its definition puts a new one of these names into the
  cache, so this number bounds the nesting of such steps.
\<close>

definition definition_names :: "json \<Rightarrow> string list" where
  "definition_names schema =
     (case schema of
        JDict skvs \<Rightarrow>
          (case dict_get_default skvs ''definitions'' (JDict []) of
             JDict defs \<Rightarrow> map fst defs
           | _ \<Rightarrow> [])
      | _ \<Rightarrow> [])"

definition unseen :: "json \<Rightarrow> cache \<Rightarrow> nat" where
  "unseen schema cs = length (filter (\<lambda>k. cache_get cs k = JNull) (remdups (definition_names schema)))"

section \<open>Termination of the model\<close>

text \<open>
  Every call either lowers the budget, or keeps it and goes from a caller to a callee in
  the order \<open>get_type_of_definition\<close>, \<open>get_fields\<close>, \<open>get_fields_loop\<close>, \<open>get_fields_step\<close>,
  \<open>property_type\<close>, \<open>union_loop\<close>, \<open>get_type\<close>, or stays in the same function on a smaller argument.
\<close>

lemma size_dict_get:
  "size (dict_get kvs k) < Suc (size_list (size_prod (\<lambda>_. 0) size) kvs)"
  by (induction kvs) (auto simp: dict_get_def split: option.splits)

termination get_type
  apply (relation "inv_image (less_than <*lex*> less_than <*lex*> less_than)
     (\<lambda>x. case x of
        Inl (Inl (n, schema, v, cs)) \<Rightarrow> (n, 0::nat, size v)
      | Inl (Inr (Inl (n, schema, r, cs))) \<Rightarrow> (n, 6, 0)
      | Inl (Inr (Inr (n, schema, s, cs))) \<Rightarrow> (n, 5, 0)
      | Inr (Inl (Inl (n, schema, skvs, required, props, cs))) \<Rightarrow> (n, 4, length props)
      | Inr (Inl (Inr (n, schema, skvs, required, key, v, cs))) \<Rightarrow> (n, 3, 0)
      | Inr (Inr (Inl (n, schema, p_class, v, cs))) \<Rightarrow> (n, 2, 0)
      | Inr (Inr (Inr (n, schema, vs, sf, lr, cs))) \<Rightarrow> (n, 1, length vs))")
   apply (rule wf_inv_image)
   apply (intro wf_lex_prod wf_less_than)
  apply (simp_all add: size_dict_get)
  done

declare get_type.simps [simp del]
declare get_type_of_definition.simps [simp del]
declare get_fields.simps [simp del]
declare get_fields_step.simps [simp del]
declare property_type.simps [simp del]

section \<open>Facts about the Python operations\<close>

lemma map_of_dict_set: "map_of (dict_set d k v) k' = (if k' = k then Some v else map_of d k')"
  by (induction d) auto

lemma has_key_dict_set: "has_key (dict_set d k v) k' = (k' = k \<or> has_key d k')"
  by (simp add: has_key_def map_of_dict_set)

lemma dict_get_append_other:
  "k' \<noteq> k \<Longrightarrow> dict_get (d @ [(k, v)]) k' = dict_get d k'"
  by (simp add: dict_get_def map_add_def split: option.splits)

lemma dict_get_default_append_other:
  "k' \<noteq> k \<Longrightarrow> dict_get_default (d @ [(k, v)]) k' x = dict_get_default d k' x"
  by (simp add: dict_get_default_def map_add_def split: option.splits)

lemma dict_get_default_append_new:
  "map_of d k = None \<Longrightarrow> dict_get_default (d @ [(k, v)]) k x = v"
  by (simp add: dict_get_default_def map_add_def split: option.splits)

text \<open>The loop reads the enclosing node only through its title.\<close>

lemma get_fields_step_title:
  "dict_get skvs ''title'' = dict_get skvs' ''title'' \<Longrightarrow>
   get_fields_step n schema skvs required key v cs = get_fields_step n schema skvs' required key v cs"
  by (simp add: get_fields_step.simps)

lemma get_fields_loop_title:
  "dict_get skvs ''title'' = dict_get skvs' ''title'' \<Longrightarrow>
   get_fields_loop n schema skvs required props cs = get_fields_loop n schema skvs' required props cs"
proof (induction props arbitrary: cs)
  case Nil
  show ?case by simp
next
  case (Cons p props)
  obtain key v where p: "p = (key, v)" by (cases p)
  show ?case
    unfolding p get_fields_loop.simps get_fields_step_title [OF Cons.prems]
    by (simp add: Cons.IH [OF Cons.prems] split: sum.splits)
qed

section \<open>A schema without properties\<close>

text \<open>
  Claim C9. A schema with no \<^verbatim>\<open>"properties"\<close> key, or with an empty one, translates to
  \<^verbatim>\<open>{"fields": [], "type": "struct"}\<close> whatever the budget, and nothing is raised. A
  schema node with no \<^verbatim>\<open>"required"\<close> key gives the same fields, the same cache and the
  same errors as the node with \<^verbatim>\<open>"required": []\<close> added.
\<close>

theorem no_properties_empty_struct:
  "(map_of skvs ''properties'' = None \<or> map_of skvs ''properties'' = Some (JDict [])
      \<longrightarrow> spark_schema n (JDict skvs) = Inr (JDict [(''fields'', JList []), (''type'', JStr ''struct'')]))
   \<and> (map_of skvs ''required'' = None
      \<longrightarrow> get_fields n schema (JDict skvs) cs
          = get_fields n schema (JDict (skvs @ [(''required'', JList [])])) cs)"
proof (intro conjI impI)
  assume "map_of skvs ''properties'' = None \<or> map_of skvs ''properties'' = Some (JDict [])"
  then have "dict_get_default skvs ''properties'' (JDict []) = JDict []"
    by (auto simp: dict_get_default_def)
  then show "spark_schema n (JDict skvs) = Inr (JDict [(''fields'', JList []), (''type'', JStr ''struct'')])"
    by (simp add: spark_schema_def get_fields.simps)
next
  assume absent: "map_of skvs ''required'' = None"
  have req: "dict_get_default skvs ''required'' (JList []) = JList []"
    using absent by (simp add: dict_get_default_def)
  have req': "dict_get_default (skvs @ [(''required'', JList [])]) ''required'' (JList []) = JList []"
    using absent by (rule dict_get_default_append_new)
  have props: "dict_get_default (skvs @ [(''required'', JList [])]) ''properties'' (JDict [])
      = dict_get_default skvs ''properties'' (JDict [])"
    by (rule dict_get_default_append_other) simp
  have title: "dict_get skvs ''title'' = dict_get (skvs @ [(''required'', JList [])]) ''title''"
    by (rule dict_get_append_other [symmetric]) simp
  show "get_fields n schema (JDict skvs) cs
      = get_fields n schema (JDict (skvs @ [(''required'', JList [])])) cs"
    by (simp add: get_fields.simps req req' props get_fields_loop_title [OF title]
        split: json.splits)
qed

theorem no_properties_empty_struct_witness:
  "map_of bare_schema ''properties'' = None
   \<and> spark_schema 0 (JDict bare_schema) = Inr (JDict [(''fields'', JList []), (''type'', JStr ''struct'')])
   \<and> map_of bare_schema ''required'' = None
   \<and> get_fields 0 JNull (JDict bare_schema) Map.empty
       = get_fields 0 JNull (JDict (bare_schema @ [(''required'', JList [])])) Map.empty"
  using no_properties_empty_struct [where skvs = bare_schema and n = 0 and schema = JNull and cs = Map.empty]
  by (simp add: bare_schema_def)

section \<open>The fields of a struct\<close>








section \<open>Primitive types\<close>

text \<open>
  Claim C5. For a descriptor without \<^verbatim>\<open>"$ref"\<close>, \<^verbatim>\<open>get_type\<close> returns, whatever the budget,
  the schema and the cache: timestamp for string with format date-time, date for string
  with format date, string with metadata logicalType uuid for string with format uuid,
  string for string without format, double for number, long for integer and boolean for
  boolean. The metadata is the default of the descriptor when it has one, and the cache
  is returned as it was.
\<close>

theorem primitive_table:
  assumes "dict_get kvs ''$ref'' = JNull"
  shows "let t = dict_get kvs ''type''; f = dict_get kvs ''format'';
             metadata = (if has_key kvs ''default'' then [(''default'', dict_get kvs ''default'')] else [])
         in (t = JStr ''string'' \<and> f = JStr ''date-time''
               \<longrightarrow> get_type n schema (JDict kvs) cs = Inr ((JStr ''timestamp'', metadata), cs))
          \<and> (t = JStr ''string'' \<and> f = JStr ''date''
               \<longrightarrow> get_type n schema (JDict kvs) cs = Inr ((JStr ''date'', metadata), cs))
          \<and> (t = JStr ''string'' \<and> f = JStr ''uuid''
               \<longrightarrow> get_type n schema (JDict kvs) cs
                   = Inr ((JStr ''string'', dict_set metadata ''logicalType'' (JStr ''uuid'')), cs))
          \<and> (t = JStr ''string'' \<and> f = JNull
               \<longrightarrow> get_type n schema (JDict kvs) cs = Inr ((JStr ''string'', metadata), cs))
          \<and> (t = JStr ''number''
               \<longrightarrow> get_type n schema (JDict kvs) cs = Inr ((JStr ''double'', metadata), cs))
          \<and> (t = JStr ''integer''
               \<longrightarrow> get_type n schema (JDict kvs) cs = Inr ((JStr ''long'', metadata), cs))
          \<and> (t = JStr ''boolean''
               \<longrightarrow> get_type n schema (JDict kvs) cs = Inr ((JStr ''boolean'', metadata), cs))"
  using assms by (simp add: get_type.simps Let_def)

theorem primitive_table_witness:
  "dict_get uuid_descriptor ''$ref'' = JNull
   \<and> get_type 0 JNull (JDict uuid_descriptor) Map.empty
       = Inr ((JStr ''string'', [(''default'', JNull), (''logicalType'', JStr ''uuid'')]), Map.empty)"
  using primitive_table [where kvs = uuid_descriptor and n = 0 and schema = JNull and cs = Map.empty]
  by (simp add: uuid_descriptor_def dict_get_def has_key_def Let_def)

section \<open>Types without a rule\<close>

text \<open>
  Claim C3 says that a string with a time-of-day format raises the unsupported-type error.
  The branch for format \<^verbatim>\<open>"time"\<close> is commented out (lines 98 to 102), so such a descriptor
  reaches \<^verbatim>\<open>elif t == "string"\<close> and becomes a plain string.
\<close>

theorem time_format_counterexample:
  "get_type 0 JNull (JDict time_descriptor) Map.empty = Inr ((JStr ''string'', []), Map.empty)"
  by (simp add: time_descriptor_def get_type.simps dict_get_def has_key_def)

text \<open>
  Claim C3, amended. For a descriptor without \<^verbatim>\<open>"$ref"\<close>, let \<open>t\<close> be its type, or
  \<^verbatim>\<open>"list"\<close> when the type is missing or falsy and \<^verbatim>\<open>"anyOf"\<close> is truthy, or None when both
  are missing or falsy. If \<open>t\<close> is none of array, string, number, integer, boolean, list and
  object, \<^verbatim>\<open>get_type\<close> raises NotImplementedError for \<open>t\<close>. The format never causes this
  error: type string with any format other than date-time, date and uuid, the time of day
  among them, gives string.
\<close>

theorem unsupported_type:
  assumes "dict_get kvs ''$ref'' = JNull"
  shows "let t0 = dict_get kvs ''type''; f = dict_get kvs ''format'';
             t = (if \<not> truthy t0 then (if truthy (dict_get kvs ''anyOf'') then JStr ''list'' else JNull) else t0);
             metadata = (if has_key kvs ''default'' then [(''default'', dict_get kvs ''default'')] else [])
         in (t \<notin> {JStr ''array'', JStr ''string'', JStr ''number'', JStr ''integer'', JStr ''boolean'',
                   JStr ''list'', JStr ''object''}
               \<longrightarrow> get_type n schema (JDict kvs) cs = Inl (NotImplementedError t))
          \<and> (t0 = JStr ''string'' \<and> f \<notin> {JStr ''date-time'', JStr ''date'', JStr ''uuid''}
               \<longrightarrow> get_type n schema (JDict kvs) cs = Inr ((JStr ''string'', metadata), cs))"
  using assms by (simp add: get_type.simps Let_def)

theorem unsupported_type_witness:
  "dict_get decimal_descriptor ''$ref'' = JNull
   \<and> get_type 0 JNull (JDict decimal_descriptor) Map.empty = Inl (NotImplementedError (JStr ''decimal''))
   \<and> dict_get time_descriptor ''$ref'' = JNull
   \<and> get_type 0 JNull (JDict time_descriptor) Map.empty = Inr ((JStr ''string'', []), Map.empty)"
  using unsupported_type [where kvs = decimal_descriptor and n = 0 and schema = JNull and cs = Map.empty]
        unsupported_type [where kvs = time_descriptor and n = 0 and schema = JNull and cs = Map.empty]
  by (simp add: decimal_descriptor_def time_descriptor_def dict_get_def has_key_def Let_def)

section \<open>Defaults and nullability\<close>

text \<open>
  Claim C4 says that a default makes the field non-nullable for every shape of
  descriptor, unions included. For a property with \<^verbatim>\<open>anyOf\<close> the code takes type and
  metadata from the first alternative (line 175) and never reads the default of the
  property itself: the field below has a default and is nullable.
\<close>

theorem union_default_counterexample:
  "spark_schema 0 union_default_schema =
     Inr (JDict [(''fields'',
                  JList [JDict [(''name'', JStr ''u''), (''nullable'', JBool True),
                                (''metadata'', JDict [(''parentClass'', JStr ''M'')]),
                                (''type'', JStr ''long'')]]),
                 (''type'', JStr ''struct'')])"
  unfolding union_default_schema_def by code_simp

text \<open>The metadata that \<^verbatim>\<open>get_type\<close> returns keeps the default, except in the array branch,
  where line 88 replaces it by the metadata of the items.\<close>

lemma get_type_keeps_default:
  assumes "get_type n schema (JDict vkvs) cs = Inr ((ty, md), cs')"
      and "has_key vkvs ''default''"
      and "dict_get vkvs ''$ref'' \<noteq> JNull \<or> dict_get vkvs ''type'' \<noteq> JStr ''array''"
  shows "has_key md ''default''"
proof (cases "dict_get vkvs ''$ref'' = JNull")
  case True
  with assms(3) have "dict_get vkvs ''type'' \<noteq> JStr ''array''" by simp
  with assms(1,2) True show ?thesis
    by (auto simp: get_type.simps Let_def has_key_dict_set has_key_def split: if_splits sum.splits)
next
  case False
  with assms(1,2) show ?thesis
    by (auto simp: get_type.simps Let_def has_key_def split: json.splits if_splits nat.splits sum.splits)
qed

lemma get_fields_step_default:
  assumes "get_fields_step n schema skvs required key (JDict vkvs) cs = Inr (f, cs')"
      and "has_key vkvs ''default''"
      and "\<not> truthy (dict_get vkvs ''anyOf'')"
      and "dict_get vkvs ''$ref'' \<noteq> JNull \<or> dict_get vkvs ''type'' \<noteq> JStr ''array''"
  shows "py_getitem f ''nullable'' = Inr (JBool False)"
proof -
  from assms(1,3) obtain ty md cs1 where
    gt: "get_type n schema (JDict vkvs) cs = Inr ((ty, md), cs1)"
    by (auto simp: get_fields_step.simps property_type.simps Let_def split: sum.splits)
  have "has_key (dict_set md ''parentClass'' (dict_get skvs ''title'')) ''default''"
    using get_type_keeps_default [OF gt assms(2,4)] by (simp add: has_key_dict_set)
  with assms(1,3) gt show ?thesis
    by (auto simp: get_fields_step.simps property_type.simps Let_def)
qed

lemma get_fields_loop_nth:
  "get_fields_loop n schema skvs required props cs = Inr (fields, cs') \<Longrightarrow> i < length props \<Longrightarrow>
   \<exists>c c'. get_fields_step n schema skvs required (fst (props ! i)) (snd (props ! i)) c = Inr (fields ! i, c')"
proof (induction props arbitrary: cs fields i)
  case Nil
  then show ?case by simp
next
  case (Cons p props)
  obtain key v where p: "p = (key, v)" by (cases p)
  from Cons.prems(1) obtain f cs1 fs where
    step: "get_fields_step n schema skvs required key v cs = Inr (f, cs1)" and
    rest: "get_fields_loop n schema skvs required props cs1 = Inr (fs, cs')" and
    fields: "fields = f # fs"
    by (auto simp: p split: sum.splits)
  show ?case
  proof (cases i)
    case 0
    with step show ?thesis unfolding fields p by auto
  next
    case (Suc j)
    with Cons.prems(2) have "j < length props" by simp
    from Cons.IH [OF rest this] show ?thesis unfolding fields Suc by simp
  qed
qed

lemma default_schema_fields:
  "get_fields 0 JNull (JDict default_schema) Map.empty = Inr (default_fields, Map.empty)"
  by (simp add: default_schema_def default_fields_def get_fields.simps get_fields_step.simps
      property_type.simps get_type.simps dict_get_def dict_get_default_def has_key_def)

text \<open>
  Claim C4, amended. Let a property of a schema node have a descriptor with the key
  \<^verbatim>\<open>"default"\<close>, without a truthy \<^verbatim>\<open>"anyOf"\<close>, and either with a \<^verbatim>\<open>"$ref"\<close> or with a type
  other than array. If \<^verbatim>\<open>get_fields\<close> returns for the node, the field of that property has
  nullable = false, whatever the required list of the node is.
\<close>

theorem default_not_nullable:
  assumes "get_fields n schema (JDict skvs) cs = Inr (fields, cs')"
      and "dict_get_default skvs ''properties'' (JDict []) = JDict props"
      and "i < length props" and "props ! i = (key, JDict vkvs)"
      and "has_key vkvs ''default''"
      and "\<not> truthy (dict_get vkvs ''anyOf'')"
      and "dict_get vkvs ''$ref'' \<noteq> JNull \<or> dict_get vkvs ''type'' \<noteq> JStr ''array''"
  shows "py_getitem (fields ! i) ''nullable'' = Inr (JBool False)"
proof -
  from assms(1,2) have
    loop: "get_fields_loop n schema skvs (dict_get_default skvs ''required'' (JList [])) props cs = Inr (fields, cs')"
    by (auto simp: get_fields.simps Let_def split: json.splits)
  from get_fields_loop_nth [OF loop assms(3)] assms(4) obtain c c' where
    "get_fields_step n schema skvs (dict_get_default skvs ''required'' (JList [])) key (JDict vkvs) c
       = Inr (fields ! i, c')"
    by auto
  from get_fields_step_default [OF this assms(5,6,7)] show ?thesis .
qed

theorem default_not_nullable_witness:
  "get_fields 0 JNull (JDict default_schema) Map.empty = Inr (default_fields, Map.empty)
   \<and> map_of default_schema ''required'' = None
   \<and> py_getitem (default_fields ! 0) ''nullable'' = Inr (JBool False)"
  using default_not_nullable [OF default_schema_fields, where i = 0 and key = "''x''"
      and vkvs = "[(''type'', JStr ''integer''), (''default'', JInt 5)]"
      and props = "[(''x'', JDict [(''type'', JStr ''integer''), (''default'', JInt 5)])]"]
    default_schema_fields
  by (simp add: default_schema_def dict_get_default_def dict_get_def has_key_def)

section \<open>Unions of structs\<close>

text \<open>
  Claim C1. The claim describes lines 149 to 171, which merge the fields of all
  alternatives, but the code never gets there: \<^verbatim>\<open>case "struct"\<close> compares
  \<^verbatim>\<open>first_subtype\<close> with a string, and the type of a struct is the dict
  \<^verbatim>\<open>{"type": "struct", "fields": ...}\<close>. The union of \<open>A\<close> and \<open>B\<close> gets the struct of \<open>A\<close>
  alone: the field \<open>b\<close> of \<open>B\<close> is missing, and \<open>a\<close>, optional in \<open>B\<close>, stays non-nullable.
\<close>

theorem union_of_structs_takes_first:
  "spark_schema 1 union_schema =
     Inr (JDict [(''fields'',
                  JList [JDict [(''name'', JStr ''u''), (''nullable'', JBool True),
                                (''metadata'', JDict [(''parentClass'', JStr ''M'')]),
                                (''type'',
                                 JDict [(''type'', JStr ''struct''),
                                        (''fields'',
                                         JList [JDict [(''name'', JStr ''a''), (''nullable'', JBool False),
                                                       (''metadata'', JDict [(''parentClass'', JStr ''A'')]),
                                                       (''type'', JStr ''long'')]])])]]),
                 (''type'', JStr ''struct'')])"
  unfolding union_schema_def by code_simp

section \<open>Cycles\<close>

text \<open>
  Claim C2. The translation of the self-referential \<open>Node\<close> returns, with a budget of one
  definition, but the type of the field \<open>next\<close> is not the map type itself: the literal of
  lines 73 to 80 wraps it in a second dict with the single key \<^verbatim>\<open>"type"\<close>.
\<close>

theorem self_reference_wrapped_placeholder:
  "spark_schema 1 node_schema =
     Inr (JDict [(''fields'',
                  JList [JDict [(''name'', JStr ''node''), (''nullable'', JBool True),
                                (''metadata'', JDict [(''parentClass'', JStr ''M'')]),
                                (''type'',
                                 JDict [(''type'', JStr ''struct''),
                                        (''fields'',
                                         JList [JDict [(''name'', JStr ''next''), (''nullable'', JBool True),
                                                       (''metadata'', JDict [(''parentClass'', JStr ''Node'')]),
                                                       (''type'',
                                                        JDict [(''type'',
                                                                JDict [(''type'', JStr ''map''),
                                                                       (''keyType'', JStr ''string''),
                                                                       (''valueType'', JStr ''string''),
                                                                       (''valueContainsNull'', JBool True)])])]])])]]),
                 (''type'', JStr ''struct'')])"
  unfolding node_schema_def node_definitions_def by code_simp

text \<open>
  Claim C7 says that after a cycle every later reference to the name gets the
  placeholder. The placeholder stays in the cache only until the call that resolves the
  definition returns: line 67 then stores the struct. With two references to \<open>Node\<close>,
  the second one gets the struct of \<open>Node\<close>, not the placeholder.
\<close>

theorem later_reference_counterexample:
  "spark_schema 1 two_refs_schema =
     Inr (JDict [(''fields'',
                  JList [JDict [(''name'', JStr ''a''), (''nullable'', JBool True),
                                (''metadata'', JDict [(''parentClass'', JStr ''M'')]),
                                (''type'', node_struct)],
                         JDict [(''name'', JStr ''b''), (''nullable'', JBool True),
                                (''metadata'', JDict [(''parentClass'', JStr ''M'')]),
                                (''type'', node_struct)]]),
                 (''type'', JStr ''struct'')])
   \<and> node_struct \<noteq> cycle_placeholder"
  unfolding two_refs_schema_def node_definitions_def by code_simp

text \<open>
  Claim C7, amended. For a descriptor with a \<^verbatim>\<open>"$ref"\<close> to a name: if the name is in
  progress, \<^verbatim>\<open>get_type\<close> returns the placeholder and stores it in the cache under the name;
  if the cache holds anything else for the name, the placeholder among them,
  \<^verbatim>\<open>get_type\<close> returns what the cache holds and leaves the cache as it is; and if the cache
  holds nothing for the name and \<^verbatim>\<open>get_type\<close> returns, the cache it leaves holds the type
  it returns, which is the one \<^verbatim>\<open>get_type_of_definition\<close> gave, in place of whatever was
  stored during the resolution.
\<close>

theorem cache_protocol:
  assumes "dict_get kvs ''$ref'' = JStr rs"
  shows "let name = replace ''#/definitions/'' [] rs;
             metadata = (if has_key kvs ''default'' then [(''default'', dict_get kvs ''default'')] else [])
         in (cache_get cs name = in_progress
               \<longrightarrow> get_type n schema (JDict kvs) cs
                   = Inr ((cycle_placeholder, metadata), cs(name \<mapsto> cycle_placeholder)))
          \<and> (cache_get cs name \<noteq> JNull \<and> cache_get cs name \<noteq> in_progress
               \<longrightarrow> get_type n schema (JDict kvs) cs = Inr ((cache_get cs name, metadata), cs))
          \<and> (\<forall>ty md cs'. cache_get cs name = JNull
                 \<and> get_type n schema (JDict kvs) cs = Inr ((ty, md), cs')
               \<longrightarrow> cache_get cs' name = ty
                 \<and> (\<exists>m cs''. n = Suc m
                      \<and> get_type_of_definition m schema (JStr rs) (cs(name \<mapsto> in_progress)) = Inr (ty, cs'')
                      \<and> cs' = cs''(name \<mapsto> ty)))"
  using assms
  by (auto simp: get_type.simps Let_def in_progress_def cache_get_def split: nat.splits sum.splits)

lemma node_ref_resolved:
  "get_type 1 node_schema (JDict node_ref) Map.empty
     = Inr ((node_struct, []), [''Node'' \<mapsto> node_struct])"
  by (simp add: node_ref_def node_schema_def node_definitions_def node_struct_def get_type.simps
      get_type_of_definition.simps get_definition_def get_fields.simps get_fields_step.simps
      property_type.simps dict_get_def dict_get_default_def has_key_def replace_def cache_get_def
      in_progress_def cycle_placeholder_def Let_def)

theorem cache_protocol_witness:
  "dict_get node_ref ''$ref'' = JStr ''#/definitions/Node''
   \<and> get_type 0 JNull (JDict node_ref) [''Node'' \<mapsto> in_progress]
       = Inr ((cycle_placeholder, []), [''Node'' \<mapsto> cycle_placeholder])
   \<and> get_type 0 JNull (JDict node_ref) [''Node'' \<mapsto> cycle_placeholder]
       = Inr ((cycle_placeholder, []), [''Node'' \<mapsto> cycle_placeholder])
   \<and> get_type 1 node_schema (JDict node_ref) Map.empty
       = Inr ((node_struct, []), [''Node'' \<mapsto> node_struct])
   \<and> cache_get [''Node'' \<mapsto> node_struct] ''Node'' = node_struct"
  using cache_protocol [where kvs = node_ref and rs = "''#/definitions/Node''" and n = 0
          and schema = JNull and cs = "[''Node'' \<mapsto> in_progress]"]
        cache_protocol [where kvs = node_ref and rs = "''#/definitions/Node''" and n = 0
          and schema = JNull and cs = "[''Node'' \<mapsto> cycle_placeholder]"]
        cache_protocol [where kvs = node_ref and rs = "''#/definitions/Node''" and n = 1
          and schema = node_schema and cs = "Map.empty"]
        node_ref_resolved
  by (simp add: node_ref_def dict_get_def has_key_def replace_def cache_get_def Let_def
      in_progress_def cycle_placeholder_def)

section \<open>What the cache holds\<close>

lemma seen_mono_refl: "seen_mono cs cs"
  by (simp add: seen_mono_def)

lemma seen_mono_trans: "seen_mono a b \<Longrightarrow> seen_mono b c \<Longrightarrow> seen_mono a c"
  by (simp add: seen_mono_def)

lemma cache_get_upd: "cache_get (cs(k \<mapsto> v)) k' = (if k' = k then v else cache_get cs k')"
  by (simp add: cache_get_def)

lemma seen_mono_upd: "v \<noteq> JNull \<Longrightarrow> seen_mono cs (cs(k \<mapsto> v))"
  by (simp add: seen_mono_def cache_get_upd)

lemma seen_mono_upd_left: "seen_mono (cs(k \<mapsto> v)) cs' \<Longrightarrow> cache_get cs k = JNull \<Longrightarrow> seen_mono cs cs'"
  unfolding seen_mono_def cache_get_upd by metis

lemma cache_ok_upd:
  "cache_ok schema cs \<Longrightarrow> defined_in schema k \<Longrightarrow> v \<noteq> JStr ''struct'' \<Longrightarrow> cache_ok schema (cs(k \<mapsto> v))"
  by (simp add: cache_ok_def cache_get_upd)

lemma cache_ok_empty: "cache_ok schema Map.empty"
  by (simp add: cache_ok_def cache_get_def)

lemma get_definition_defined:
  "get_definition (JStr rs) schema = Inr d \<Longrightarrow> defined_in schema (replace ''#/definitions/'' [] rs)"
  by (auto simp: get_definition_def defined_in_def Let_def split: json.splits if_splits)

lemma get_type_of_definition_facts:
  assumes "get_type_of_definition n schema r cs = Inr (ty, cs')"
  shows "ty \<noteq> JNull \<and> ty \<noteq> JStr ''struct'' \<and> (\<exists>rs. r = JStr rs \<and> defined_in schema (replace ''#/definitions/'' [] rs))"
proof -
  from assms obtain d where d: "get_definition r schema = Inr d"
    by (auto simp: get_type_of_definition.simps split: sum.splits)
  then obtain rs where r: "r = JStr rs"
    by (cases r) (auto simp: get_definition_def)
  from d have "defined_in schema (replace ''#/definitions/'' [] rs)"
    unfolding r by (rule get_definition_defined)
  moreover from assms d have "ty \<noteq> JNull \<and> ty \<noteq> JStr ''struct''"
    by (auto simp: get_type_of_definition.simps Let_def split: sum.splits bool.splits json.splits if_splits)
  ultimately show ?thesis using r by blast
qed

text \<open>
  Every call that returns leaves a cache in order and forgets no name. The types
  that \<^verbatim>\<open>get_type\<close> returns are type names of the source, dicts, or entries of the cache,
  so none is the string \<^verbatim>\<open>"struct"\<close>.
\<close>

lemma get_type_inv:
  "get_type n schema v cs = Inr ((ty, md), cs') \<Longrightarrow> cache_ok schema cs
     \<Longrightarrow> cache_ok schema cs' \<and> seen_mono cs cs' \<and> ty \<noteq> JStr ''struct''"
  and get_type_of_definition_inv:
  "get_type_of_definition n schema r cs = Inr (ty, cs') \<Longrightarrow> cache_ok schema cs
     \<Longrightarrow> cache_ok schema cs' \<and> seen_mono cs cs'"
  and get_fields_inv:
  "get_fields n schema s cs = Inr (fields, cs') \<Longrightarrow> cache_ok schema cs
     \<Longrightarrow> cache_ok schema cs' \<and> seen_mono cs cs'"
  and get_fields_loop_inv:
  "get_fields_loop n schema skvs required props cs = Inr (fields, cs') \<Longrightarrow> cache_ok schema cs
     \<Longrightarrow> cache_ok schema cs' \<and> seen_mono cs cs'"
  and get_fields_step_inv:
  "get_fields_step n schema skvs required key v cs = Inr (field, cs') \<Longrightarrow> cache_ok schema cs
     \<Longrightarrow> cache_ok schema cs' \<and> seen_mono cs cs'"
  and property_type_inv:
  "property_type n schema p_class v cs = Inr ((ty, md), cs') \<Longrightarrow> cache_ok schema cs
     \<Longrightarrow> cache_ok schema cs' \<and> seen_mono cs cs' \<and> ty \<noteq> JStr ''struct''"
  and union_loop_inv:
  "union_loop n schema vs sf lr cs = Inr (res, cs') \<Longrightarrow> cache_ok schema cs
     \<Longrightarrow> cache_ok schema cs' \<and> seen_mono cs cs'"
proof (induction n schema v cs and n schema r cs and n schema s cs and n schema skvs required props cs
    and n schema skvs required key v cs and n schema p_class v cs and n schema vs sf lr cs
    arbitrary: ty md cs' and ty cs' and fields cs' and fields cs' and field cs' and ty md cs' and res cs'
    rule: get_type_get_type_of_definition_get_fields_get_fields_loop_get_fields_step_property_type_union_loop.induct)
  case (1 n schema "value" cs)
  from "1.prems"(1) obtain kvs where v: "value = JDict kvs"
    by (cases "value") (auto simp: get_type.simps)
  let ?r = "dict_get kvs ''$ref''"
  show ?case
  proof (cases "?r = JNull")
    case True
    note noref = this
    let ?t0 = "dict_get kvs ''type''"
    let ?t = "if \<not> truthy ?t0 then (if truthy (dict_get kvs ''anyOf'') then JStr ''list'' else JNull) else ?t0"
    show ?thesis
    proof (cases "?t = JStr ''array''")
      case True
      with "1.prems"(1) noref obtain tn where
        items: "get_type n schema (dict_get kvs ''items'') cs = Inr ((tn, md), cs')" and
        ty: "ty = JDict [(''type'', JStr ''array''), (''elementType'', tn), (''containsNull'', JBool True)]"
        unfolding v by (auto simp: get_type.simps Let_def split: sum.splits)
      from "1.IH"(2) [OF v refl refl refl refl refl refl _ True items "1.prems"(2)] noref ty
      show ?thesis by simp
    next
      case False
      note noarray = this
      show ?thesis
      proof (cases "?t = JStr ''object'' \<and> dict_get kvs ''additionalProperties'' \<noteq> JNull")
        case True
        with "1.prems"(1) noref noarray obtain value_type m where
          a: "get_type n schema (dict_get kvs ''additionalProperties'') cs = Inr ((value_type, m), cs')" and
          ty: "ty = JDict [(''keyType'', JStr ''string''), (''type'', JStr ''map''),
                          (''valueContainsNull'', JBool True), (''valueType'', value_type)]"
          unfolding v by (auto simp: get_type.simps Let_def split: sum.splits if_splits)
        have "cache_ok schema cs' \<and> seen_mono cs cs' \<and> value_type \<noteq> JStr ''struct''"
          apply (rule "1.IH"(3) [OF v refl refl refl refl refl refl _ _ _ _ _ _ _ _ _ _ _ _ a "1.prems"(2)])
          using noref noarray True by (auto split: if_splits)
        with ty show ?thesis by simp
      next
        case False
        with "1.prems" noref noarray show ?thesis
          unfolding v by (auto simp: get_type.simps Let_def seen_mono_refl split: if_splits)
      qed
    qed
  next
    case False
    note ref = this
    with "1.prems"(1) obtain rs where rs: "?r = JStr rs"
      unfolding v by (cases ?r) (auto simp: get_type.simps Let_def)
    let ?name = "replace ''#/definitions/'' [] rs"
    show ?thesis
    proof (cases "cache_get cs ?name = JNull")
      case True
      with "1.prems"(1) rs obtain m cs'' where
        n: "n = Suc m" and
        gtod: "get_type_of_definition m schema ?r (cs(?name \<mapsto> in_progress)) = Inr (ty, cs'')" and
        cs': "cs' = cs''(?name \<mapsto> ty)"
        unfolding v by (auto simp: get_type.simps Let_def split: nat.splits sum.splits)
      from get_type_of_definition_facts [OF gtod] rs have
        facts: "ty \<noteq> JNull" "ty \<noteq> JStr ''struct''" "defined_in schema ?name"
        by auto
      have ok1: "cache_ok schema (cs(?name \<mapsto> in_progress))"
        using "1.prems"(2) facts(3) by (rule cache_ok_upd) (simp add: in_progress_def)
      from "1.IH"(1) [OF v refl refl refl refl refl refl ref rs refl refl True n gtod ok1]
      have 1: "cache_ok schema cs''" "seen_mono (cs(?name \<mapsto> in_progress)) cs''" by blast+
      have "seen_mono cs cs''" using 1(2) True by (rule seen_mono_upd_left)
      then have "seen_mono cs cs'"
        unfolding cs' using seen_mono_upd [OF facts(1)] by (rule seen_mono_trans)
      moreover have "cache_ok schema cs'"
        unfolding cs' using 1(1) facts(3,2) by (rule cache_ok_upd)
      ultimately show ?thesis using facts(2) by simp
    next
      case False
      note seen = this
      show ?thesis
      proof (cases "cache_get cs ?name = in_progress")
        case True
        with "1.prems"(1) rs seen have
          ty: "ty = cycle_placeholder" and cs': "cs' = cs(?name \<mapsto> cycle_placeholder)"
          unfolding v by (auto simp: get_type.simps Let_def)
        have "defined_in schema ?name"
          using "1.prems"(2) seen by (simp add: cache_ok_def)
        with "1.prems"(2) have "cache_ok schema (cs(?name \<mapsto> cycle_placeholder))"
          by (rule cache_ok_upd) (simp add: cycle_placeholder_def)
        moreover have "seen_mono cs (cs(?name \<mapsto> cycle_placeholder))"
          by (rule seen_mono_upd) (simp add: cycle_placeholder_def)
        moreover have "cycle_placeholder \<noteq> JStr ''struct''"
          by (simp add: cycle_placeholder_def)
        ultimately show ?thesis unfolding ty cs' by blast
      next
        case False
        with "1.prems"(1) rs seen have "ty = cache_get cs ?name" "cs' = cs"
          unfolding v by (auto simp: get_type.simps Let_def)
        with "1.prems"(2) seen show ?thesis
          by (auto simp: cache_ok_def seen_mono_refl)
      qed
    qed
  qed
next
  case (2 n schema ref cs)
  then show ?case
    by (auto simp: get_type_of_definition.simps Let_def seen_mono_refl split: sum.splits bool.splits json.splits if_splits)
next
  case (3 n schema s cs)
  then show ?case
    by (auto simp: get_fields.simps Let_def split: json.splits)
next
  case (4 n schema skvs required cs)
  then show ?case by (simp add: seen_mono_refl)
next
  case (5 n schema skvs required key "value" rest cs)
  from "5.prems"(1) obtain f cs1 fs where
    step: "get_fields_step n schema skvs required key value cs = Inr (f, cs1)" and
    rest: "get_fields_loop n schema skvs required rest cs1 = Inr (fs, cs')"
    by (auto split: sum.splits)
  from "5.IH"(1) [OF step "5.prems"(2)] have 1: "cache_ok schema cs1" "seen_mono cs cs1" by simp_all
  from "5.IH"(2) [OF step refl rest 1(1)] 1(2) show ?case
    by (auto intro: seen_mono_trans)
next
  case (6 n schema skvs required key "value" cs)
  then show ?case
    by (auto simp: get_fields_step.simps Let_def split: sum.splits prod.splits if_splits)
next
  case (7 n schema p_class "value" cs)
  from "7.prems"(1) obtain vkvs where v: "value = JDict vkvs"
    by (cases "value") (auto simp: property_type.simps)
  let ?anyof = "dict_get vkvs ''anyOf''"
  show ?case
  proof (cases "truthy ?anyof")
    case True
    with "7.prems"(1) obtain first_value first_subtype first_metadata cs1 where
      idx: "py_index0 ?anyof = Inr first_value" and
      gt: "get_type n schema first_value cs = Inr ((first_subtype, first_metadata), cs1)"
      unfolding v by (auto simp: property_type.simps Let_def split: sum.splits)
    from "7.IH"(1) [OF v refl True idx gt "7.prems"(2)]
    have 1: "cache_ok schema cs1" "seen_mono cs cs1" "first_subtype \<noteq> JStr ''struct''" by simp_all
    with "7.prems"(1) True idx gt show ?thesis
      unfolding v by (auto simp: property_type.simps Let_def)
  next
    case False
    with "7.prems"(1) have gt: "get_type n schema value cs = Inr ((ty, md), cs')"
      unfolding v by (auto simp: property_type.simps Let_def)
    from "7.IH"(3) [OF v refl False gt "7.prems"(2)] show ?thesis .
  qed
next
  case (8 n schema subtype_fields last_round cs)
  then show ?case by (simp add: seen_mono_refl)
next
  case (9 n schema v rest subtype_fields last_round cs)
  from "9.prems"(1) obtain ty md cs1 st flds sf' where
    gt: "get_type n schema v cs = Inr ((ty, md), cs1)" and
    ty: "ty = JDict st" and
    iter: "py_iter (dict_get st ''fields'') = Inr flds" and
    coal: "coalesce flds subtype_fields = Inr sf'" and
    rest: "union_loop n schema rest sf' (Some (ty, md)) cs1 = Inr (res, cs')"
    by (auto split: sum.splits json.splits)
  from "9.IH"(1) [OF gt "9.prems"(2)] have 1: "cache_ok schema cs1" "seen_mono cs cs1" by simp_all
  from "9.IH"(2) [OF gt refl refl ty iter coal rest 1(1)] 1(2) show ?case
    by (auto intro: seen_mono_trans)
qed


text \<open>
  Hence, in a translation that starts from the empty cache, \<^verbatim>\<open>case "struct"\<close> of line 148
  is never taken: a property with \<^verbatim>\<open>anyOf\<close> gets the type and the metadata of its first
  alternative, and nothing depends on how the body of that case is modelled.
\<close>

lemma union_takes_first_alternative:
  assumes "cache_ok schema cs"
      and "truthy (dict_get vkvs ''anyOf'')"
      and "property_type n schema p_class (JDict vkvs) cs = Inr (res, cs')"
  shows "\<exists>first_value. py_index0 (dict_get vkvs ''anyOf'') = Inr first_value
           \<and> get_type n schema first_value cs = Inr (res, cs')"
proof -
  from assms(2,3) obtain first_value first_subtype first_metadata cs1 where
    idx: "py_index0 (dict_get vkvs ''anyOf'') = Inr first_value" and
    gt: "get_type n schema first_value cs = Inr ((first_subtype, first_metadata), cs1)"
    by (auto simp: property_type.simps Let_def split: sum.splits)
  from get_type_inv [OF gt assms(1)] have "first_subtype \<noteq> JStr ''struct''" by blast
  with assms(2,3) idx gt show ?thesis
    by (auto simp: property_type.simps Let_def)
qed





section \<open>Missing definitions\<close>




section \<open>Termination of the translation\<close>

lemma dict_get_in_keys: "dict_get d k \<noteq> JNull \<Longrightarrow> k \<in> fst ` set d"
  by (auto simp: dict_get_def split: option.splits dest: map_of_SomeD intro: rev_image_eqI)

lemma defined_in_names: "defined_in schema k \<Longrightarrow> k \<in> set (definition_names schema)"
  by (auto simp: defined_in_def definition_names_def dest: dict_get_in_keys split: json.splits)

lemma unseen_bound: "unseen schema cs \<le> length (definition_names schema)"
  unfolding unseen_def
  by (rule order_trans [OF length_filter_le]) (rule length_remdups_leq)

lemma unseen_mono: "seen_mono cs cs' \<Longrightarrow> unseen schema cs' \<le> unseen schema cs"
proof -
  assume m: "seen_mono cs cs'"
  let ?xs = "remdups (definition_names schema)"
  have "set (filter (\<lambda>k. cache_get cs' k = JNull) ?xs) \<subseteq> set (filter (\<lambda>k. cache_get cs k = JNull) ?xs)"
    using m by (auto simp: seen_mono_def)
  then have "card (set (filter (\<lambda>k. cache_get cs' k = JNull) ?xs))
               \<le> card (set (filter (\<lambda>k. cache_get cs k = JNull) ?xs))"
    by (intro card_mono) auto
  then show ?thesis
    by (simp add: unseen_def distinct_card del: set_filter)
qed

lemma unseen_decreases:
  assumes "cache_get cs k = JNull" and "k \<in> set (definition_names schema)" and "v \<noteq> JNull"
  shows "unseen schema (cs(k \<mapsto> v)) < unseen schema cs"
proof -
  let ?xs = "remdups (definition_names schema)"
  let ?A = "set (filter (\<lambda>k'. cache_get (cs(k \<mapsto> v)) k' = JNull) ?xs)"
  let ?B = "set (filter (\<lambda>k'. cache_get cs k' = JNull) ?xs)"
  have "?A \<subseteq> ?B" using assms(1) by (auto simp: cache_get_upd split: if_splits)
  moreover have "k \<in> ?B" "k \<notin> ?A" using assms by (auto simp: cache_get_upd)
  ultimately have "?A \<subset> ?B" by blast
  then have "card ?A < card ?B" by (intro psubset_card_mono) auto
  then show ?thesis by (simp add: unseen_def distinct_card del: set_filter)
qed

text \<open>
  With a budget above the number of unseen definitions, no call runs out of budget: it
  returns or raises one of the exceptions of the source.
\<close>

lemma get_type_fuel:
  "unseen schema cs < n \<Longrightarrow> cache_ok schema cs \<Longrightarrow> get_type n schema v cs \<noteq> Inl OutOfFuel"
  and get_type_of_definition_fuel:
  "unseen schema cs < n \<Longrightarrow> cache_ok schema cs \<Longrightarrow> get_type_of_definition n schema r cs \<noteq> Inl OutOfFuel"
  and get_fields_fuel:
  "unseen schema cs < n \<Longrightarrow> cache_ok schema cs \<Longrightarrow> get_fields n schema s cs \<noteq> Inl OutOfFuel"
  and get_fields_loop_fuel:
  "unseen schema cs < n \<Longrightarrow> cache_ok schema cs
     \<Longrightarrow> get_fields_loop n schema skvs required props cs \<noteq> Inl OutOfFuel"
  and get_fields_step_fuel:
  "unseen schema cs < n \<Longrightarrow> cache_ok schema cs
     \<Longrightarrow> get_fields_step n schema skvs required key v cs \<noteq> Inl OutOfFuel"
  and property_type_fuel:
  "unseen schema cs < n \<Longrightarrow> cache_ok schema cs \<Longrightarrow> property_type n schema p_class v cs \<noteq> Inl OutOfFuel"
  and union_loop_fuel:
  "unseen schema cs < n \<Longrightarrow> cache_ok schema cs \<Longrightarrow> union_loop n schema vs sf lr cs \<noteq> Inl OutOfFuel"
proof (induction n schema v cs and n schema r cs and n schema s cs and n schema skvs required props cs
    and n schema skvs required key v cs and n schema p_class v cs and n schema vs sf lr cs
    rule: get_type_get_type_of_definition_get_fields_get_fields_loop_get_fields_step_property_type_union_loop.induct)
  case (1 n schema "value" cs)
  show ?case
  proof (cases "value")
    case (JDict kvs)
    note v = this
    let ?r = "dict_get kvs ''$ref''"
    let ?t0 = "dict_get kvs ''type''"
    let ?t = "if \<not> truthy ?t0 then (if truthy (dict_get kvs ''anyOf'') then JStr ''list'' else JNull) else ?t0"
    show ?thesis
    proof (cases "?r = JNull")
      case True
      note noref = this
      show ?thesis
      proof (cases "?t = JStr ''array''")
        case True
        from "1.IH"(2) [OF v refl refl refl refl refl refl _ True "1.prems"] noref
        have "get_type n schema (dict_get kvs ''items'') cs \<noteq> Inl OutOfFuel" by simp
        with noref True show ?thesis
          unfolding v by (auto simp: get_type.simps Let_def split: sum.splits)
      next
        case False
        note noarray = this
        show ?thesis
        proof (cases "?t = JStr ''object'' \<and> dict_get kvs ''additionalProperties'' \<noteq> JNull")
          case True
          have "get_type n schema (dict_get kvs ''additionalProperties'') cs \<noteq> Inl OutOfFuel"
            apply (rule "1.IH"(3) [OF v refl refl refl refl refl refl _ _ _ _ _ _ _ _ _ _ _ _ "1.prems"])
            using noref noarray True by (auto split: if_splits)
          with noref noarray True show ?thesis
            unfolding v by (auto simp: get_type.simps Let_def split: sum.splits if_splits)
        next
          case False
          with noref noarray show ?thesis
            unfolding v by (auto simp: get_type.simps Let_def split: if_splits)
        qed
      qed
    next
      case False
      note ref = this
      show ?thesis
      proof (cases ?r)
        case (JStr rs)
        note rs = this
        let ?name = "replace ''#/definitions/'' [] rs"
        show ?thesis
        proof (cases "cache_get cs ?name = JNull")
          case True
          note new = this
          from "1.prems"(1) obtain m where n: "n = Suc m" by (cases n) auto
          let ?cs1 = "cs(?name \<mapsto> in_progress)"
          have "get_type_of_definition m schema ?r ?cs1 \<noteq> Inl OutOfFuel"
          proof (cases "defined_in schema ?name")
            case True
            have ok1: "cache_ok schema ?cs1"
              using "1.prems"(2) True by (rule cache_ok_upd) (simp add: in_progress_def)
            have "unseen schema ?cs1 < unseen schema cs"
              using new defined_in_names [OF True] by (rule unseen_decreases) (simp add: in_progress_def)
            with "1.prems"(1) have "unseen schema ?cs1 < m" unfolding n by simp
            from "1.IH"(1) [OF v refl refl refl refl refl refl ref rs refl refl new n this ok1]
            show ?thesis .
          next
            case False
            then have "\<And>d. get_definition (JStr rs) schema \<noteq> Inr d"
              using get_definition_defined by blast
            then show ?thesis
              by (auto simp: get_type_of_definition.simps rs get_definition_def Let_def
                  split: sum.splits json.splits if_splits)
          qed
          with new rs n show ?thesis
            unfolding v by (auto simp: get_type.simps Let_def split: sum.splits)
        next
          case False
          with rs show ?thesis
            unfolding v by (auto simp: get_type.simps Let_def)
        qed
      qed (use ref in \<open>auto simp: get_type.simps v Let_def\<close>)
    qed
  qed (auto simp: get_type.simps)
next
  case (2 n schema ref cs)
  show ?case
  proof (cases "get_definition ref schema")
    case (Inl e)
    then have "e \<noteq> OutOfFuel"
      by (auto simp: get_definition_def Let_def split: json.splits if_splits)
    with Inl show ?thesis by (simp add: get_type_of_definition.simps)
  next
    case (Inr d)
    note d = this
    show ?thesis
    proof (cases "py_in ''enum'' d")
      case (Inl e)
      then have "e \<noteq> OutOfFuel" by (cases d) auto
      with Inl d show ?thesis by (simp add: get_type_of_definition.simps)
    next
      case (Inr b)
      show ?thesis
      proof (cases b)
        case True
        with d Inr show ?thesis
          by (auto simp: get_type_of_definition.simps Let_def split: json.splits)
      next
        case False
        then have bf: "b = False" by simp
        from "2.IH" [OF d Inr bf "2.prems"] d Inr bf show ?thesis
          by (auto simp: get_type_of_definition.simps split: sum.splits)
      qed
    qed
  qed
next
  case (3 n schema s cs)
  then show ?case
    by (auto simp: get_fields.simps Let_def split: json.splits)
next
  case (4 n schema skvs required cs)
  then show ?case by simp
next
  case (5 n schema skvs required key "value" rest cs)
  show ?case
  proof (cases "get_fields_step n schema skvs required key value cs")
    case (Inl e)
    with "5.IH"(1) [OF "5.prems"] show ?thesis by simp
  next
    case (Inr p)
    obtain f cs1 where p: "p = (f, cs1)" by (cases p)
    from get_fields_step_inv [OF Inr [unfolded p] "5.prems"(2)]
    have 1: "cache_ok schema cs1" "seen_mono cs cs1" by blast+
    from unseen_mono [OF 1(2), of schema] "5.prems"(1) have "unseen schema cs1 < n" by simp
    from "5.IH"(2) [OF Inr [unfolded p] refl this 1(1)] Inr p show ?thesis
      by (auto split: sum.splits)
  qed
next
  case (6 n schema skvs required key "value" cs)
  have "py_in key required \<noteq> Inl OutOfFuel" by (cases required) auto
  with "6.IH" [OF refl "6.prems"] show ?case
    by (auto simp: get_fields_step.simps Let_def split: sum.splits prod.splits)
next
  case (7 n schema p_class "value" cs)
  show ?case
  proof (cases "value")
    case (JDict vkvs)
    note v = this
    let ?anyof = "dict_get vkvs ''anyOf''"
    show ?thesis
    proof (cases "truthy ?anyof")
      case True
      note anyof = this
      show ?thesis
      proof (cases "py_index0 ?anyof")
        case (Inl e)
        then have "e \<noteq> OutOfFuel" by (cases ?anyof rule: py_index0.cases) auto
        with Inl anyof show ?thesis
          unfolding v by (simp add: property_type.simps)
      next
        case (Inr first_value)
        note idx = this
        show ?thesis
        proof (cases "get_type n schema first_value cs")
          case (Inl e)
          with "7.IH"(1) [OF v refl anyof idx "7.prems"] anyof idx show ?thesis
            unfolding v by (simp add: property_type.simps)
        next
          case (Inr p)
          obtain first_subtype first_metadata cs1 where p: "p = ((first_subtype, first_metadata), cs1)"
            by (cases p) auto
          from get_type_inv [OF Inr [unfolded p] "7.prems"(2)]
          have "first_subtype \<noteq> JStr ''struct''" by blast
          with Inr p anyof idx show ?thesis
            unfolding v by (simp add: property_type.simps)
        qed
      qed
    next
      case False
      with "7.IH"(3) [OF v refl False "7.prems"] show ?thesis
        unfolding v by (simp add: property_type.simps)
    qed
  qed (auto simp: property_type.simps)
next
  case (8 n schema subtype_fields last_round cs)
  then show ?case by simp
next
  case (9 n schema v rest subtype_fields last_round cs)
  show ?case
  proof (cases "get_type n schema v cs")
    case (Inl e)
    with "9.IH"(1) [OF "9.prems"] show ?thesis by simp
  next
    case (Inr p)
    obtain ty md cs1 where p: "p = ((ty, md), cs1)" by (cases p) auto
    from get_type_inv [OF Inr [unfolded p] "9.prems"(2)]
    have 1: "cache_ok schema cs1" "seen_mono cs cs1" by blast+
    from unseen_mono [OF 1(2), of schema] "9.prems"(1) have less: "unseen schema cs1 < n" by simp
    show ?thesis
    proof (cases ty)
      case (JDict st)
      note ty = this
      show ?thesis
      proof (cases "py_iter (dict_get st ''fields'')")
        case (Inl e)
        then have "e \<noteq> OutOfFuel" by (cases "dict_get st ''fields''") auto
        with Inl Inr p ty show ?thesis by simp
      next
        case (Inr flds)
        note iter = this
        have coal: "\<And>xs sf. coalesce xs sf \<noteq> Inl OutOfFuel"
        proof -
          fix xs sf show "coalesce xs sf \<noteq> Inl OutOfFuel"
          proof (induction xs arbitrary: sf)
            case Nil
            show ?case by simp
          next
            case (Cons x xs)
            have "py_getitem x ''name'' \<noteq> Inl OutOfFuel"
              by (cases x) (auto split: option.splits)
            with Cons show ?case by (auto split: sum.splits)
          qed
        qed
        show ?thesis
        proof (cases "coalesce flds subtype_fields")
          case (Inl e)
          with coal [of flds subtype_fields] \<open>get_type n schema v cs = Inr p\<close> p ty iter show ?thesis
            by simp
        next
          case (Inr sf')
          from "9.IH"(2) [OF \<open>get_type n schema v cs = Inr p\<close> [unfolded p] refl refl ty iter Inr less 1(1)]
            \<open>get_type n schema v cs = Inr p\<close> p ty iter Inr
          show ?thesis by simp
        qed
      qed
    qed (use Inr p in auto)
  qed
qed


text \<open>
  The translation of every schema returns or raises once the budget exceeds the number of
  entries of the definitions table: the recursion of the source always ends.
\<close>

theorem translation_returns:
  assumes "length (definition_names schema) < n"
  shows "spark_schema n schema \<noteq> Inl OutOfFuel"
proof -
  have "unseen schema Map.empty < n"
    using unseen_bound [of schema Map.empty] assms by simp
  from get_fields_fuel [OF this cache_ok_empty, of schema] show ?thesis
    by (auto simp: spark_schema_def split: sum.splits)
qed

text \<open>
  A call that does not run out of budget gives the same result with a larger budget, so
  the result of a translation does not depend on the budget once it is large enough.
\<close>

lemma get_type_more:
  "get_type n schema v cs \<noteq> Inl OutOfFuel \<Longrightarrow> get_type (Suc n) schema v cs = get_type n schema v cs"
  and get_type_of_definition_more:
  "get_type_of_definition n schema r cs \<noteq> Inl OutOfFuel
     \<Longrightarrow> get_type_of_definition (Suc n) schema r cs = get_type_of_definition n schema r cs"
  and get_fields_more:
  "get_fields n schema s cs \<noteq> Inl OutOfFuel \<Longrightarrow> get_fields (Suc n) schema s cs = get_fields n schema s cs"
  and get_fields_loop_more:
  "get_fields_loop n schema skvs required props cs \<noteq> Inl OutOfFuel
     \<Longrightarrow> get_fields_loop (Suc n) schema skvs required props cs = get_fields_loop n schema skvs required props cs"
  and get_fields_step_more:
  "get_fields_step n schema skvs required key v cs \<noteq> Inl OutOfFuel
     \<Longrightarrow> get_fields_step (Suc n) schema skvs required key v cs = get_fields_step n schema skvs required key v cs"
  and property_type_more:
  "property_type n schema p_class v cs \<noteq> Inl OutOfFuel
     \<Longrightarrow> property_type (Suc n) schema p_class v cs = property_type n schema p_class v cs"
  and union_loop_more:
  "union_loop n schema vs sf lr cs \<noteq> Inl OutOfFuel
     \<Longrightarrow> union_loop (Suc n) schema vs sf lr cs = union_loop n schema vs sf lr cs"
proof (induction n schema v cs and n schema r cs and n schema s cs and n schema skvs required props cs
    and n schema skvs required key v cs and n schema p_class v cs and n schema vs sf lr cs
    rule: get_type_get_type_of_definition_get_fields_get_fields_loop_get_fields_step_property_type_union_loop.induct)
  case (1 n schema "value" cs)
  show ?case
  proof (cases "value")
    case (JDict kvs)
    note v = this
    let ?r = "dict_get kvs ''$ref''"
    let ?t0 = "dict_get kvs ''type''"
    let ?t = "if \<not> truthy ?t0 then (if truthy (dict_get kvs ''anyOf'') then JStr ''list'' else JNull) else ?t0"
    show ?thesis
    proof (cases "?r = JNull")
      case True
      note noref = this
      show ?thesis
      proof (cases "?t = JStr ''array''")
        case True
        with "1.prems" noref have "get_type n schema (dict_get kvs ''items'') cs \<noteq> Inl OutOfFuel"
          unfolding v by (auto simp: get_type.simps Let_def)
        from "1.IH"(2) [OF v refl refl refl refl refl refl _ True this] noref
        have "get_type (Suc n) schema (dict_get kvs ''items'') cs
                = get_type n schema (dict_get kvs ''items'') cs" by simp
        with noref True show ?thesis
          unfolding v by (simp add: get_type.simps [of _ _ "JDict kvs"] Let_def)
      next
        case False
        note noarray = this
        show ?thesis
        proof (cases "?t = JStr ''object'' \<and> dict_get kvs ''additionalProperties'' \<noteq> JNull")
          case True
          with "1.prems" noref noarray
          have a: "get_type n schema (dict_get kvs ''additionalProperties'') cs \<noteq> Inl OutOfFuel"
            unfolding v by (auto simp: get_type.simps Let_def split: if_splits)
          have "get_type (Suc n) schema (dict_get kvs ''additionalProperties'') cs
                  = get_type n schema (dict_get kvs ''additionalProperties'') cs"
            apply (rule "1.IH"(3) [OF v refl refl refl refl refl refl _ _ _ _ _ _ _ _ _ _ _ _ a])
            using noref noarray True by (auto split: if_splits)
          with noref noarray True show ?thesis
            unfolding v by (simp add: get_type.simps [of _ _ "JDict kvs"] Let_def)
        next
          case False
          with noref noarray show ?thesis
            unfolding v by (auto simp: get_type.simps [of _ _ "JDict kvs"] Let_def)
        qed
      qed
    next
      case False
      note ref = this
      show ?thesis
      proof (cases ?r)
        case (JStr rs)
        note rs = this
        let ?name = "replace ''#/definitions/'' [] rs"
        show ?thesis
        proof (cases "cache_get cs ?name = JNull")
          case True
          note new = this
          from "1.prems" rs new obtain m where n: "n = Suc m"
            unfolding v by (cases n) (auto simp: get_type.simps Let_def)
          let ?cs1 = "cs(?name \<mapsto> in_progress)"
          from "1.prems" rs new n have "get_type_of_definition m schema ?r ?cs1 \<noteq> Inl OutOfFuel"
            unfolding v by (auto simp: get_type.simps Let_def)
          from "1.IH"(1) [OF v refl refl refl refl refl refl ref rs refl refl new n this]
          have "get_type_of_definition (Suc m) schema ?r ?cs1 = get_type_of_definition m schema ?r ?cs1" .
          with rs new n show ?thesis
            unfolding v by (simp add: get_type.simps [of _ _ "JDict kvs"] Let_def)
        next
          case False
          with rs show ?thesis
            unfolding v by (simp add: get_type.simps [of _ _ "JDict kvs"] Let_def)
        qed
      qed (use ref in \<open>auto simp: get_type.simps [of _ _ "JDict kvs"] v Let_def\<close>)
    qed
  qed (auto simp: get_type.simps)
next
  case (2 n schema ref cs)
  show ?case
  proof (cases "get_definition ref schema")
    case (Inl e)
    then show ?thesis by (simp add: get_type_of_definition.simps)
  next
    case (Inr d)
    note d = this
    show ?thesis
    proof (cases "py_in ''enum'' d")
      case (Inl e)
      with d show ?thesis by (simp add: get_type_of_definition.simps)
    next
      case (Inr b)
      show ?thesis
      proof (cases b)
        case True
        with d Inr show ?thesis by (simp add: get_type_of_definition.simps)
      next
        case False
        then have bf: "b = False" by simp
        from "2.prems" d Inr bf have "get_fields n schema d cs \<noteq> Inl OutOfFuel"
          by (auto simp: get_type_of_definition.simps)
        from "2.IH" [OF d Inr bf this] d Inr bf show ?thesis
          by (simp add: get_type_of_definition.simps)
      qed
    qed
  qed
next
  case (3 n schema s cs)
  then show ?case
    by (auto simp: get_fields.simps Let_def split: json.splits)
next
  case (4 n schema skvs required cs)
  then show ?case by simp
next
  case (5 n schema skvs required key "value" rest cs)
  from "5.prems" have step: "get_fields_step n schema skvs required key value cs \<noteq> Inl OutOfFuel"
    by auto
  note s1 = "5.IH"(1) [OF step]
  show ?case
  proof (cases "get_fields_step n schema skvs required key value cs")
    case (Inl e)
    with s1 show ?thesis by simp
  next
    case (Inr p)
    obtain f cs1 where p: "p = (f, cs1)" by (cases p)
    from "5.prems" Inr p have "get_fields_loop n schema skvs required rest cs1 \<noteq> Inl OutOfFuel"
      by (auto split: sum.splits)
    from "5.IH"(2) [OF Inr [unfolded p] refl this] s1 Inr p show ?thesis by simp
  qed
next
  case (6 n schema skvs required key "value" cs)
  from "6.prems" have "property_type n schema (dict_get skvs ''title'') value cs \<noteq> Inl OutOfFuel"
    by (auto simp: get_fields_step.simps Let_def)
  from "6.IH" [OF refl this] show ?case
    by (simp add: get_fields_step.simps)
next
  case (7 n schema p_class "value" cs)
  show ?case
  proof (cases "value")
    case (JDict vkvs)
    note v = this
    let ?anyof = "dict_get vkvs ''anyOf''"
    show ?thesis
    proof (cases "truthy ?anyof")
      case True
      note anyof = this
      show ?thesis
      proof (cases "py_index0 ?anyof")
        case (Inl e)
        with anyof show ?thesis
          unfolding v by (simp add: property_type.simps)
      next
        case (Inr first_value)
        note idx = this
        from "7.prems" anyof idx have gt: "get_type n schema first_value cs \<noteq> Inl OutOfFuel"
          unfolding v by (auto simp: property_type.simps)
        note g1 = "7.IH"(1) [OF v refl anyof idx gt]
        show ?thesis
        proof (cases "get_type n schema first_value cs")
          case (Inl e)
          with g1 anyof idx show ?thesis
            unfolding v by (simp add: property_type.simps)
        next
          case (Inr p)
          note gtp = this
          obtain first_subtype first_metadata cs1 where p: "p = ((first_subtype, first_metadata), cs1)"
            by (cases p) auto
          show ?thesis
          proof (cases "first_subtype = JStr ''struct''")
            case True
            note struct = this
            show ?thesis
            proof (cases "py_iter ?anyof")
              case (Inl e)
              with g1 gtp p anyof idx struct show ?thesis
                unfolding v by (simp add: property_type.simps)
            next
              case (Inr vs)
              from "7.prems" anyof idx gtp p struct Inr
              have "union_loop n schema vs [] None cs1 \<noteq> Inl OutOfFuel"
                unfolding v by (auto simp: property_type.simps)
              from "7.IH"(2) [OF v refl anyof idx gtp [unfolded p] refl refl struct Inr this]
              have "union_loop (Suc n) schema vs [] None cs1 = union_loop n schema vs [] None cs1" .
              with g1 gtp p anyof idx struct Inr show ?thesis
                unfolding v by (simp add: property_type.simps)
            qed
          next
            case False
            with g1 gtp p anyof idx show ?thesis
              unfolding v by (simp add: property_type.simps)
          qed
        qed
      qed
    next
      case False
      with "7.prems" have "get_type n schema value cs \<noteq> Inl OutOfFuel"
        unfolding v by (simp add: property_type.simps)
      from "7.IH"(3) [OF v refl False this] False show ?thesis
        unfolding v by (simp add: property_type.simps)
    qed
  qed (auto simp: property_type.simps)
next
  case (8 n schema subtype_fields last_round cs)
  then show ?case by simp
next
  case (9 n schema v rest subtype_fields last_round cs)
  from "9.prems" have gt: "get_type n schema v cs \<noteq> Inl OutOfFuel" by auto
  note g1 = "9.IH"(1) [OF gt]
  show ?case
  proof (cases "get_type n schema v cs")
    case (Inl e)
    with g1 show ?thesis by simp
  next
    case (Inr p)
    obtain ty md cs1 where p: "p = ((ty, md), cs1)" by (cases p) auto
    show ?thesis
    proof (cases ty)
      case (JDict st)
      note ty = this
      show ?thesis
      proof (cases "py_iter (dict_get st ''fields'')")
        case (Inl e)
        with g1 Inr p ty show ?thesis by simp
      next
        case (Inr flds)
        note iter = this
        show ?thesis
        proof (cases "coalesce flds subtype_fields")
          case (Inl e)
          with g1 \<open>get_type n schema v cs = Inr p\<close> p ty iter show ?thesis by simp
        next
          case (Inr sf')
          from "9.prems" \<open>get_type n schema v cs = Inr p\<close> p ty iter Inr
          have "union_loop n schema rest sf' (Some (ty, md)) cs1 \<noteq> Inl OutOfFuel" by simp
          from "9.IH"(2) [OF \<open>get_type n schema v cs = Inr p\<close> [unfolded p] refl refl ty iter Inr this]
            g1 \<open>get_type n schema v cs = Inr p\<close> p ty iter Inr
          show ?thesis by simp
        qed
      qed
    qed (use g1 Inr p in auto)
  qed
qed


lemma spark_schema_more:
  assumes "spark_schema n schema \<noteq> Inl OutOfFuel"
  shows "spark_schema (n + k) schema = spark_schema n schema"
proof (induction k)
  case 0
  show ?case by simp
next
  case (Suc k)
  from assms Suc have "get_fields (n + k) schema schema Map.empty \<noteq> Inl OutOfFuel"
    by (auto simp: spark_schema_def split: sum.splits)
  from get_fields_more [OF this] Suc show ?case
    by (simp add: spark_schema_def)
qed

text \<open>
  Every budget above the number of entries of the definitions table gives the same
  result: this is what the source returns or raises for the schema.
\<close>

theorem translation_result_stable:
  assumes "length (definition_names schema) < n" and "n \<le> n'"
  shows "spark_schema n' schema = spark_schema n schema"
proof -
  from assms(2) obtain k where "n' = n + k" by (auto simp: le_iff_add)
  with spark_schema_more [OF translation_returns [OF assms(1)]] show ?thesis by simp
qed

end
